theory Spec2Isabelle
  imports Main "HOL-Library.Word"
begin

unbundle bit_operations_syntax

section \<open>JavaScript strings\<close>

text \<open>
  A JavaScript string is a sequence of UTF-16 code units. The chat page compares,
  slices and concatenates strings by code unit, so a string is a list of 16-bit words;
  \<open>js\<close> writes an ASCII literal as such a list.
\<close>

type_synonym byte = "8 word"
type_synonym jsstring = "16 word list"

definition js :: "string \<Rightarrow> jsstring" where
  "js s = map (\<lambda>c. of_char c) s"

definition LF :: "16 word" where
  "LF = 0x0A"

definition CR :: "16 word" where
  "CR = 0x0D"

definition SP :: "16 word" where
  "SP = 0x20"

text \<open>\<^verbatim>\<open>s.startsWith(p)\<close> and \<^verbatim>\<open>s.endsWith(p)\<close>.\<close>

definition startsWith :: "jsstring \<Rightarrow> jsstring \<Rightarrow> bool" where
  "startsWith s p = (take (length p) s = p)"

definition endsWith :: "jsstring \<Rightarrow> jsstring \<Rightarrow> bool" where
  "endsWith s p = (length p \<le> length s \<and> drop (length s - length p) s = p)"

text \<open>\<^verbatim>\<open>s.indexOf(c)\<close> for a one-unit needle: the first position, \<open>None\<close> for -1.\<close>

fun indexOf :: "jsstring \<Rightarrow> 16 word \<Rightarrow> nat option" where
  "indexOf [] c = None"
| "indexOf (x # xs) c = (if x = c then Some 0 else map_option Suc (indexOf xs c))"

text \<open>
  \<^verbatim>\<open>s.trim()\<close> removes WhiteSpace and LineTerminator code units (ECMAScript 12.2 and
  12.3) from both ends.
\<close>

definition isWhiteSpace :: "16 word \<Rightarrow> bool" where
  "isWhiteSpace c =
     (c = 0x09 \<or> c = 0x0A \<or> c = 0x0B \<or> c = 0x0C \<or> c = 0x0D \<or> c = 0x20 \<or> c = 0xA0
      \<or> c = 0x1680 \<or> (0x2000 \<le> c \<and> c \<le> 0x200A) \<or> c = 0x2028 \<or> c = 0x2029
      \<or> c = 0x202F \<or> c = 0x205F \<or> c = 0x3000 \<or> c = 0xFEFF)"

definition trim :: "jsstring \<Rightarrow> jsstring" where
  "trim s = rev (dropWhile isWhiteSpace (rev (dropWhile isWhiteSpace s)))"

text \<open>A non-negative integer in a template literal: its decimal digits.\<close>

fun digits :: "nat \<Rightarrow> jsstring" where
  "digits n = (if n < 10 then [0x30 + of_nat n] else digits (n div 10) @ [0x30 + of_nat (n mod 10)])"

section \<open>The transcript\<close>

text \<open>
  \<^verbatim>\<open>type Msg = { role: "user" | "assistant"; text: string }\<close>. The page component holds
  \<^verbatim>\<open>input\<close>, \<^verbatim>\<open>loading\<close> and \<^verbatim>\<open>messages\<close> as React state and \<^verbatim>\<open>assistantIndexRef\<close>
  as a ref (\<^verbatim>\<open>number | null\<close>). State updates are applied in the order the code issues
  them; an updater function reads the ref when it is applied.
\<close>

datatype role = User | Assistant

record Msg =
  role :: role
  "text" :: jsstring

record page =
  input :: jsstring
  loading :: bool
  messages :: "Msg list"
  assistantIndexRef :: "int option"

definition canSend :: "page \<Rightarrow> bool" where
  "canSend st = (length (trim (input st)) > 0 \<and> \<not> loading st)"

text \<open>
  \<^verbatim>\<open>appendToAssistant(delta)\<close>: the updater returns \<^verbatim>\<open>prev\<close> itself when the ref is null
  or out of range, and otherwise a copy whose entry \<^verbatim>\<open>idx\<close> has \<^verbatim>\<open>delta\<close> appended to
  its text.
\<close>

definition appendToAssistant :: "jsstring \<Rightarrow> page \<Rightarrow> page" where
  "appendToAssistant delta st =
     (let prev = messages st in
      case assistantIndexRef st of
        None \<Rightarrow> st
      | Some idx \<Rightarrow>
          if idx < 0 \<or> idx \<ge> int (length prev) then st
          else st\<lparr>messages :=
                 prev[nat idx := (prev ! nat idx)\<lparr>text := text (prev ! nat idx) @ delta\<rparr>]\<rparr>)"

section \<open>The platform: errors, UTF-8 decoding, stream readers\<close>

text \<open>
  A thrown value, as far as the page looks at it: \<^verbatim>\<open>e?.message\<close>, which may be missing.
\<close>

datatype exn = Error (message: "jsstring option")

text \<open>
  \<^verbatim>\<open>new TextDecoder("utf-8")\<close>, called with \<^verbatim>\<open>{ stream: true }\<close>. The model follows the
  UTF-8 decoder of the WHATWG Encoding Standard: a byte handler with the state variables
  code point, bytes seen, bytes needed and the two boundaries; a malformed sequence
  yields U+FFFD, and a byte that breaks a sequence is handled again as a first byte.
  The state lives across calls, so a sequence cut by a chunk boundary is completed by
  the next chunk.
\<close>

record utf8_decoder =
  code_point :: nat
  bytes_seen :: nat
  bytes_needed :: nat
  lower_boundary :: byte
  upper_boundary :: byte

definition utf8_initial :: utf8_decoder where
  "utf8_initial = \<lparr>code_point = 0, bytes_seen = 0, bytes_needed = 0,
                    lower_boundary = 0x80, upper_boundary = 0xBF\<rparr>"

definition utf8_first :: "utf8_decoder \<Rightarrow> byte \<Rightarrow> nat list \<times> utf8_decoder" where
  "utf8_first d b =
     (if b \<le> 0x7F then ([unat b], d)
      else if 0xC2 \<le> b \<and> b \<le> 0xDF then
        ([], d\<lparr>bytes_needed := 1, code_point := unat (b AND 0x1F)\<rparr>)
      else if 0xE0 \<le> b \<and> b \<le> 0xEF then
        ([], d\<lparr>lower_boundary := (if b = 0xE0 then 0xA0 else lower_boundary d),
                upper_boundary := (if b = 0xED then 0x9F else upper_boundary d),
                bytes_needed := 2, code_point := unat (b AND 0xF)\<rparr>)
      else if 0xF0 \<le> b \<and> b \<le> 0xF4 then
        ([], d\<lparr>lower_boundary := (if b = 0xF0 then 0x90 else lower_boundary d),
                upper_boundary := (if b = 0xF4 then 0x8F else upper_boundary d),
                bytes_needed := 3, code_point := unat (b AND 0x7)\<rparr>)
      else ([0xFFFD], d))"

definition utf8_handler :: "utf8_decoder \<Rightarrow> byte \<Rightarrow> nat list \<times> utf8_decoder" where
  "utf8_handler d b =
     (if bytes_needed d = 0 then utf8_first d b
      else if b < lower_boundary d \<or> upper_boundary d < b then
        (case utf8_first utf8_initial b of (out, d') \<Rightarrow> (0xFFFD # out, d'))
      else
        (let cp = code_point d * 64 + unat (b AND 0x3F);
             seen = bytes_seen d + 1
         in if seen \<noteq> bytes_needed d then
              ([], d\<lparr>lower_boundary := 0x80, upper_boundary := 0xBF,
                      code_point := cp, bytes_seen := seen\<rparr>)
            else ([cp], utf8_initial)))"

fun utf8_run :: "utf8_decoder \<Rightarrow> byte list \<Rightarrow> nat list \<times> utf8_decoder" where
  "utf8_run d [] = ([], d)"
| "utf8_run d (b # bs) =
     (case utf8_handler d b of (out, d') \<Rightarrow>
        (case utf8_run d' bs of (outs, d'') \<Rightarrow> (out @ outs, d'')))"

text \<open>A scalar value as UTF-16 code units (a surrogate pair above U+FFFF).\<close>

definition utf16 :: "nat \<Rightarrow> jsstring" where
  "utf16 cp =
     (if cp < 0x10000 then [of_nat cp]
      else [of_nat (0xD800 + (cp - 0x10000) div 0x400),
            of_nat (0xDC00 + (cp - 0x10000) mod 0x400)])"

text \<open>
  Serialising the decoded scalar values: the first one ever produced is dropped when it
  is the byte order mark U+FEFF (\<^verbatim>\<open>ignoreBOM\<close> is false by default).
\<close>

fun serialize :: "bool \<Rightarrow> nat list \<Rightarrow> jsstring \<times> bool" where
  "serialize seen [] = ([], seen)"
| "serialize seen (c # cs) =
     (if \<not> seen \<and> c = 0xFEFF then serialize True cs
      else (case serialize True cs of (s, seen') \<Rightarrow> (utf16 c @ s, seen')))"

record TextDecoder =
  utf8 :: utf8_decoder
  BOM_seen :: bool

definition new_TextDecoder :: TextDecoder where
  "new_TextDecoder = \<lparr>utf8 = utf8_initial, BOM_seen = False\<rparr>"

definition decode :: "TextDecoder \<Rightarrow> byte list \<Rightarrow> jsstring \<times> TextDecoder" where
  "decode dec v =
     (case utf8_run (utf8 dec) v of (cps, d') \<Rightarrow>
        (case serialize (BOM_seen dec) cps of (s, seen') \<Rightarrow>
           (s, \<lparr>utf8 = d', BOM_seen = seen'\<rparr>)))"

text \<open>
  \<^verbatim>\<open>response.body.getReader()\<close>. The stream is what the network will deliver: chunks of
  bytes, possibly a failure, then the end. \<^verbatim>\<open>read()\<close> takes the next event; after
  \<^verbatim>\<open>cancel()\<close> the stream is closed and every \<^verbatim>\<open>read()\<close> reports \<^verbatim>\<open>done\<close> (Streams
  Standard), the events still pending being never delivered.
\<close>

datatype read_event = Chunk "byte list" | ReadError exn

datatype read_result = Value "byte list" | Done | ReadRejected exn

record reader =
  pending :: "read_event list"
  cancelled :: bool

definition getReader :: "read_event list \<Rightarrow> reader" where
  "getReader evs = \<lparr>pending = evs, cancelled = False\<rparr>"

definition read :: "reader \<Rightarrow> read_result \<times> reader" where
  "read r =
     (if cancelled r then (Done, r)
      else case pending r of
             [] \<Rightarrow> (Done, r)
           | Chunk v # rest \<Rightarrow> (Value v, r\<lparr>pending := rest\<rparr>)
           | ReadError e # rest \<Rightarrow> (ReadRejected e, r\<lparr>pending := rest\<rparr>))"

definition cancel :: "reader \<Rightarrow> reader" where
  "cancel r = r\<lparr>cancelled := True\<rparr>"

section \<open>The frame parser\<close>

text \<open>
  The inner loop of \<^verbatim>\<open>onSend\<close> (``process complete lines''): while the buffer holds a
  line feed, cut the first line off, strip one trailing carriage return, and interpret a
  \<^verbatim>\<open>data:\<close> line. The sentinel cancels the reader, empties the buffer and leaves the
  loop. The result is the reader, the buffer and the page after the loop.
\<close>

function processLines :: "reader \<Rightarrow> jsstring \<Rightarrow> page \<Rightarrow> reader \<times> jsstring \<times> page" where
  "processLines reader buffer st =
     (case indexOf buffer LF of
        None \<Rightarrow> (reader, buffer, st)
      | Some lineEnd \<Rightarrow>
          (let rawLine = take lineEnd buffer;
               buffer' = drop (lineEnd + 1) buffer;
               line = (if endsWith rawLine [CR] then butlast rawLine else rawLine)
           in if startsWith line (js ''data:'') then
                (let data = drop 5 line;
                     data = (if startsWith data [SP] then drop 1 data else data)
                 in if data = js ''[END]'' then (cancel reader, [], st)
                    else if data = [] then processLines reader buffer' (appendToAssistant [LF] st)
                    else processLines reader buffer' (appendToAssistant data st))
              else processLines reader buffer' st))"
  by pat_completeness auto
termination
proof -
  have less: "i < length b" if "indexOf b c = Some i" for b c i
    using that by (induction b arbitrary: i) (auto split: if_splits)
  show ?thesis
    by (relation "measure (\<lambda>(reader, buffer, st). length buffer)") (auto dest: less)
qed

declare processLines.simps [simp del]

text \<open>
  The outer loop: read a chunk, decode it onto the buffer, process the complete lines,
  until \<^verbatim>\<open>read()\<close> reports \<^verbatim>\<open>done\<close>. A rejected \<^verbatim>\<open>read()\<close> is the exception that leaves
  the loop. The result is the exception if any, and the reader, buffer and page at exit.
\<close>

function readLoop ::
  "reader \<Rightarrow> TextDecoder \<Rightarrow> jsstring \<Rightarrow> page \<Rightarrow> exn option \<times> reader \<times> jsstring \<times> page" where
  "readLoop reader decoder buffer st =
     (case read reader of
        (Done, reader') \<Rightarrow> (None, reader', buffer, st)
      | (ReadRejected e, reader') \<Rightarrow> (Some e, reader', buffer, st)
      | (Value v, reader') \<Rightarrow>
          (case decode decoder v of (s, decoder') \<Rightarrow>
             (case processLines reader' (buffer @ s) st of (reader'', buffer', st') \<Rightarrow>
                readLoop reader'' decoder' buffer' st')))"
  by pat_completeness auto
termination
proof -
  have keep: "pending (fst (processLines r b st)) = pending r" for r b st
  proof (induction b arbitrary: st rule: length_induct)
    case (1 b)
    show ?case
    proof (cases "indexOf b LF")
      case None
      then show ?thesis by (subst processLines.simps) simp
    next
      case (Some i)
      have "i < length b"
        using Some by (induction b arbitrary: i) (auto split: if_splits)
      then have "length b' < length b" if "b' = [] \<or> b' = drop (Suc i) b" for b'
        using that by auto
      then have "pending (fst (processLines r b' st')) = pending r"
        if "b' = [] \<or> b' = drop (Suc i) b" for b' st'
        using 1 that by blast
      then show ?thesis
        using Some by (subst processLines.simps) (simp add: Let_def cancel_def)
    qed
  qed
  have shorter: "length (pending r') < length (pending r)" if "read r = (Value v, r')" for r r' v
    using that by (auto simp: read_def split: if_splits list.splits read_event.splits)
  show ?thesis
  proof (relation "measure (\<lambda>(reader, decoder, buffer, st). length (pending reader))")
    show "wf (measure (\<lambda>(reader, decoder, buffer, st). length (pending reader)))"
      by simp
  next
    fix reader :: reader and decoder :: TextDecoder and buffer :: jsstring and st :: page
      and x y x1 xa ya xb yb xc yc
    assume rd: "(x, y) = read reader" "x = Value x1"
      and pl: "(xb, yb) = processLines y (buffer @ xa) st"
    have "pending xb = pending y"
      using keep [of y "buffer @ xa" st] pl [symmetric] by simp
    moreover have "length (pending y) < length (pending reader)"
      using rd shorter [of reader x1 y] by simp
    ultimately show "((xb, ya, xc, yc), reader, decoder, buffer, st)
        \<in> measure (\<lambda>(reader, decoder, buffer, st). length (pending reader))"
      by simp
  qed
qed

declare readLoop.simps [simp del]

section \<open>Sending a question\<close>

text \<open>
  \<^verbatim>\<open>fetch\<close> is the environment: it resolves with a response or rejects. Of a response
  the code uses \<^verbatim>\<open>status\<close> (and \<^verbatim>\<open>ok\<close>, which is a status from 200 to 299), \<^verbatim>\<open>body\<close>
  (the events its stream will deliver, \<open>None\<close> for a null body), and what \<^verbatim>\<open>text()\<close>
  and \<^verbatim>\<open>json()\<close> settle to. The request body is the value handed to
  \<^verbatim>\<open>JSON.stringify\<close>.
\<close>

record 'b request =
  url :: jsstring
  http_method :: jsstring
  headers :: "(jsstring \<times> jsstring) list"
  body :: 'b

record 'j response =
  status :: nat
  response_body :: "read_event list option"
  response_text :: "exn + jsstring"
  response_json :: "exn + 'j"

datatype 'j fetch_result = Resolved "'j response" | FetchRejected exn

definition ok :: "'j response \<Rightarrow> bool" where
  "ok r = (200 \<le> status r \<and> status r \<le> 299)"

record ask_body =
  question :: jsstring

text \<open>The request \<^verbatim>\<open>onSend\<close> sends, and its \<^verbatim>\<open>try\<close> block: the exception it throws
  if any, the reader it opened if any, and the page when it is left.\<close>

definition ask_stream_request :: "jsstring \<Rightarrow> ask_body request" where
  "ask_stream_request q =
     \<lparr>url = js ''/api/ask-stream'', http_method = js ''POST'',
      headers = [(js ''Content-Type'', js ''application/json''),
                 (js ''Accept'', js ''text/event-stream'')],
      body = \<lparr>question = q\<rparr>\<rparr>"

definition tryBlock ::
  "(ask_body request \<Rightarrow> 'j fetch_result) \<Rightarrow> jsstring \<Rightarrow> page
     \<Rightarrow> exn option \<times> reader option \<times> page" where
  "tryBlock fetch q st =
     (case fetch (ask_stream_request q) of
        FetchRejected e \<Rightarrow> (Some e, None, st)
      | Resolved response \<Rightarrow>
          if \<not> ok response then
            (let txt = (case response_text response of Inl _ \<Rightarrow> [] | Inr t \<Rightarrow> t)
             in (Some (Error (Some (trim (js ''HTTP '' @ digits (status response) @ js ''. '' @ txt)))),
                 None, st))
          else
            (case response_body response of
               None \<Rightarrow> (Some (Error (Some (js ''No response body (stream missing).''))), None, st)
             | Some evs \<Rightarrow>
                 (case readLoop (getReader evs) new_TextDecoder [] st of
                    (e, reader, buffer, st') \<Rightarrow> (e, Some reader, st'))))"

text \<open>The notice the \<^verbatim>\<open>catch\<close> block appends.\<close>

definition failureNotice :: "exn \<Rightarrow> jsstring" where
  "failureNotice e =
     [LF, LF] @ trim (js ''Streaming failed. '' @ (case message e of None \<Rightarrow> [] | Some m \<Rightarrow> m))"

text \<open>
  \<^verbatim>\<open>onSend\<close>. The result records which way the function was left (the early
  \<^verbatim>\<open>return\<close>, the \<^verbatim>\<open>try\<close> block running to its end, or the \<^verbatim>\<open>catch\<close> block), the page
  state, and the reader of the response stream if one was opened. Every operation that
  can throw is inside the \<^verbatim>\<open>try\<close> block, whose \<^verbatim>\<open>catch\<close> takes any thrown value.
\<close>

datatype outcome = Rejected | Completed | Failed

record send_result =
  outcome :: outcome
  page_after :: page
  stream_reader :: "reader option"

definition onSend :: "(ask_body request \<Rightarrow> 'j fetch_result) \<Rightarrow> page \<Rightarrow> send_result" where
  "onSend fetch st =
     (let q = trim (input st) in
      if q = [] \<or> loading st then \<lparr>outcome = Rejected, page_after = st, stream_reader = None\<rparr>
      else
        (let st = st\<lparr>input := []\<rparr>;
             st = st\<lparr>loading := True\<rparr>;
             st = st\<lparr>messages := messages st @ [\<lparr>role = User, text = q\<rparr>]\<rparr>;
             st = st\<lparr>assistantIndexRef := Some (int (length (messages st))),
                     messages := messages st @ [\<lparr>role = Assistant, text = []\<rparr>]\<rparr>
         in case tryBlock fetch q st of
              (None, reader, st) \<Rightarrow>
                \<lparr>outcome = Completed, page_after = st\<lparr>loading := False\<rparr>, stream_reader = reader\<rparr>
            | (Some e, reader, st) \<Rightarrow>
                \<lparr>outcome = Failed,
                 page_after = (appendToAssistant (failureNotice e) st)\<lparr>loading := False\<rparr>,
                 stream_reader = reader\<rparr>))"

section \<open>The API routes\<close>

text \<open>
  What a route answers: \<^verbatim>\<open>new Response(stream, ...)\<close> passing a stream on,
  \<^verbatim>\<open>NextResponse.json(data, ...)\<close>, \<^verbatim>\<open>new NextResponse(text, ...)\<close>, or the object
  \<^verbatim>\<open>{ error: "Proxy error", detail: err.message }\<close>. A route returns the requests it
  sent to the backend together with its answer or the exception that leaves it.
\<close>

datatype 'j reply_body =
    Stream "read_event list option"
  | Json 'j
  | Text jsstring
  | ProxyError "jsstring option"

record 'j reply =
  reply_status :: nat
  reply_headers :: "(jsstring \<times> jsstring) list"
  reply_body :: "'j reply_body"

definition backendBase :: "jsstring option \<Rightarrow> jsstring" where
  "backendBase env = (case env of Some base \<Rightarrow> base | None \<Rightarrow> js ''http://127.0.0.1:8000'')"

text \<open>The request each route sends to the backend: the parsed body of its own request,
  serialised again, posted to a path under the base address.\<close>

definition backend_request :: "jsstring \<Rightarrow> jsstring \<Rightarrow> 'q \<Rightarrow> 'q request" where
  "backend_request base path json =
     \<lparr>url = base @ path, http_method = js ''POST'',
      headers = [(js ''Content-Type'', js ''application/json'')], body = json\<rparr>"

text \<open>\<^verbatim>\<open>ui/app/api/ask-stream/route.ts\<close>. A \<^verbatim>\<open>Response\<close> built without a status has
  status 200.\<close>

definition ask_stream_POST ::
  "jsstring option \<Rightarrow> ('q request \<Rightarrow> 'j fetch_result) \<Rightarrow> exn + 'q
     \<Rightarrow> 'q request list \<times> (exn + 'j reply)" where
  "ask_stream_POST env fetch req_json =
     (case req_json of
        Inl e \<Rightarrow> ([], Inl e)
      | Inr json \<Rightarrow>
          (let request = backend_request (backendBase env) (js ''/ask-stream'') json
           in case fetch request of
                FetchRejected e \<Rightarrow> ([request], Inl e)
              | Resolved response \<Rightarrow>
                  ([request],
                   Inr \<lparr>reply_status = 200,
                        reply_headers = [(js ''Content-Type'', js ''text/event-stream'')],
                        reply_body = Stream (response_body response)\<rparr>)))"







section \<open>The wire protocol as the specification words it\<close>

text \<open>
  The lines of a text are its pieces that end in a line feed; what follows the last line
  feed is not a line. A carriage return before the line feed is not part of the line.
\<close>

fun terminated_lines :: "jsstring \<Rightarrow> jsstring list" where
  "terminated_lines [] = []"
| "terminated_lines (c # cs) =
     (if c = LF then [] # terminated_lines cs
      else (case terminated_lines cs of [] \<Rightarrow> [] | l # ls \<Rightarrow> (c # l) # ls))"

definition strip_cr :: "jsstring \<Rightarrow> jsstring" where
  "strip_cr l = (if l \<noteq> [] \<and> last l = CR then butlast l else l)"

definition wire_lines :: "jsstring \<Rightarrow> jsstring list" where
  "wire_lines t = map strip_cr (terminated_lines t)"

text \<open>
  A line carries a payload when it begins with the five characters \<^verbatim>\<open>data:\<close>; the
  payload is what follows them, less one separator space if there is one.
\<close>

definition is_data :: "jsstring \<Rightarrow> bool" where
  "is_data l = (take 5 l = js ''data:'')"

definition payload :: "jsstring \<Rightarrow> jsstring" where
  "payload l = (case drop 5 l of [] \<Rightarrow> [] | c # cs \<Rightarrow> if c = SP then cs else c # cs)"

definition payloads :: "jsstring \<Rightarrow> jsstring list" where
  "payloads t = map payload (filter is_data (wire_lines t))"

text \<open>
  The sentinel frame is the first payload equal to \<^verbatim>\<open>[END]\<close>. The deltas of a text are
  its payloads before the sentinel frame, an empty payload standing for a line feed.
\<close>

definition has_sentinel :: "jsstring \<Rightarrow> bool" where
  "has_sentinel t = (js ''[END]'' \<in> set (payloads t))"

definition deltas :: "jsstring \<Rightarrow> jsstring list" where
  "deltas t = map (\<lambda>p. if p = [] then [LF] else p)
                  (takeWhile (\<lambda>p. p \<noteq> js ''[END]'') (payloads t))"

text \<open>The same for lines given by their contents, no terminator and nothing stripped.\<close>

definition lines_have_sentinel :: "jsstring list \<Rightarrow> bool" where
  "lines_have_sentinel ls = (js ''[END]'' \<in> set (map payload (filter is_data ls)))"

definition line_deltas :: "jsstring list \<Rightarrow> jsstring list" where
  "line_deltas ls = map (\<lambda>p. if p = [] then [LF] else p)
                       (takeWhile (\<lambda>p. p \<noteq> js ''[END]'') (map payload (filter is_data ls)))"

text \<open>The text after the last line feed.\<close>

definition unterminated :: "jsstring \<Rightarrow> jsstring" where
  "unterminated t = rev (takeWhile (\<lambda>c. c \<noteq> LF) (rev t))"

text \<open>All the text a fresh decoder makes of a byte sequence.\<close>

definition decoded :: "byte list \<Rightarrow> jsstring" where
  "decoded bs = fst (decode new_TextDecoder bs)"

text \<open>The first message of the page, and the page as it is first rendered.\<close>

definition greeting :: jsstring where
  "greeting = js ''Ask me anything about the uploaded book (RAG). I'' @ [0x2019]
     @ js ''ll answer using only the document context.''"

definition initial_page :: page where
  "initial_page = \<lparr>input = [], loading = False,
                    messages = [\<lparr>role = Assistant, text = greeting\<rparr>],
                    assistantIndexRef = None\<rparr>"

text \<open>
  The page after a send from \<open>st\<close> whose answer reads \<open>t\<close>: the question and the answer
  appended to the Transcript, the input cleared, nothing in flight.
\<close>

definition answered :: "page \<Rightarrow> jsstring \<Rightarrow> page" where
  "answered st t =
     \<lparr>input = [], loading = False,
      messages = messages st @ [\<lparr>role = User, text = trim (input st)\<rparr>,
                                \<lparr>role = Assistant, text = t\<rparr>],
      assistantIndexRef = Some (int (length (messages st)) + 1)\<rparr>"

text \<open>The same send while the answer is still arriving, \<open>t\<close> being its text so far.\<close>

definition sending :: "page \<Rightarrow> jsstring \<Rightarrow> page" where
  "sending st t =
     \<lparr>input = [], loading = True,
      messages = messages st @ [\<lparr>role = User, text = trim (input st)\<rparr>,
                                \<lparr>role = Assistant, text = t\<rparr>],
      assistantIndexRef = Some (int (length (messages st)) + 1)\<rparr>"

text \<open>What one line makes the inner loop do.\<close>

datatype frame = Ignored | Sentinel | Delta jsstring

definition frame_of :: "jsstring \<Rightarrow> frame" where
  "frame_of rawLine =
     (let l = strip_cr rawLine in
      if is_data l then
        (if payload l = js ''[END]'' then Sentinel
         else if payload l = [] then Delta [LF] else Delta (payload l))
      else Ignored)"

text \<open>A stream of lines with line-feed terminators, and with CR LF terminators.\<close>

definition lf_stream :: "jsstring list \<Rightarrow> jsstring" where
  "lf_stream ls = concat (map (\<lambda>l. l @ [LF]) ls)"

definition crlf_stream :: "jsstring list \<Rightarrow> jsstring" where
  "crlf_stream ls = concat (map (\<lambda>l. l @ [CR, LF]) ls)"

text \<open>Backends and pages used as concrete inputs.\<close>

definition utf8_bytes :: "string \<Rightarrow> byte list" where
  "utf8_bytes s = map (\<lambda>c. of_char c) s"

record answer_body =
  answer :: jsstring

definition streaming_backend ::
  "read_event list \<Rightarrow> ask_body request \<Rightarrow> answer_body fetch_result" where
  "streaming_backend evs req =
     Resolved \<lparr>status = 200, response_body = Some evs,
               response_text = Inr [], response_json = Inl (Error None)\<rparr>"

definition failing_backend :: "ask_body request \<Rightarrow> answer_body fetch_result" where
  "failing_backend req =
     Resolved \<lparr>status = 500, response_body = None,
               response_text = Inr [], response_json = Inl (Error None)\<rparr>"

definition bodyless_backend :: "ask_body request \<Rightarrow> answer_body fetch_result" where
  "bodyless_backend req =
     Resolved \<lparr>status = 200, response_body = None,
               response_text = Inr [], response_json = Inl (Error None)\<rparr>"

definition unreachable_backend :: "ask_body request \<Rightarrow> answer_body fetch_result" where
  "unreachable_backend req = FetchRejected (Error (Some (js ''fetch failed'')))"




definition server_error_backend :: "ask_body request \<Rightarrow> answer_body fetch_result" where
  "server_error_backend req =
     Resolved \<lparr>status = 500,
               response_body = Some [Chunk (utf8_bytes ''Internal Server Error'')],
               response_text = Inr (js ''Internal Server Error''),
               response_json = Inl (Error (Some (js ''Unexpected token I in JSON at position 0'')))\<rparr>"




definition asking :: "string \<Rightarrow> page" where
  "asking s = initial_page\<lparr>input := js s\<rparr>"

section \<open>Delta application\<close>

lemma appendToAssistant_unresolved:
  "assistantIndexRef st = None \<or>
   (\<exists>idx. assistantIndexRef st = Some idx \<and> (idx < 0 \<or> idx \<ge> int (length (messages st))))
   \<Longrightarrow> appendToAssistant delta st = st"
  by (auto simp: appendToAssistant_def Let_def)

lemma appendToAssistant_resolved:
  assumes "assistantIndexRef st = Some idx" "0 \<le> idx" "idx < int (length (messages st))"
  shows "appendToAssistant delta st =
         st\<lparr>messages := (messages st)[nat idx :=
              (messages st ! nat idx)\<lparr>text := text (messages st ! nat idx) @ delta\<rparr>]\<rparr>"
  using assms by (simp add: appendToAssistant_def Let_def)

lemma appendToAssistant_fields [simp]:
  "input (appendToAssistant delta st) = input st"
  "loading (appendToAssistant delta st) = loading st"
  "assistantIndexRef (appendToAssistant delta st) = assistantIndexRef st"
  "length (messages (appendToAssistant delta st)) = length (messages st)"
  by (auto simp: appendToAssistant_def Let_def split: option.splits)

section \<open>The frame parser, line by line\<close>

lemma indexOf_less: "indexOf b c = Some i \<Longrightarrow> i < length b"
  by (induction b arbitrary: i) (auto split: if_splits)

lemma indexOf_None: "indexOf b c = None \<longleftrightarrow> c \<notin> set b"
  by (induction b) auto

lemma indexOf_line: "c \<notin> set l \<Longrightarrow> indexOf (l @ c # t) c = Some (length l)"
  by (induction l) auto

lemma indexOf_split:
  "indexOf b c = Some i \<Longrightarrow> b = take i b @ c # drop (Suc i) b \<and> c \<notin> set (take i b)"
proof (induction b arbitrary: i)
  case Nil
  then show ?case by simp
next
  case (Cons x xs)
  show ?case
  proof (cases "x = c")
    case True
    with Cons.prems show ?thesis by simp
  next
    case False
    with Cons.prems obtain j where j: "indexOf xs c = Some j" "i = Suc j"
      by auto
    from Cons.IH [OF j(1)] False j(2) show ?thesis by simp
  qed
qed

text \<open>Induction along the lines of a buffer.\<close>

lemma lines_induct [case_names tail line]:
  assumes "\<And>b. LF \<notin> set b \<Longrightarrow> P b"
    and "\<And>l t. LF \<notin> set l \<Longrightarrow> P t \<Longrightarrow> P (l @ LF # t)"
  shows "P b"
proof (induction b rule: length_induct)
  case (1 b)
  show ?case
  proof (cases "indexOf b LF")
    case None
    then show ?thesis using assms(1) by (simp add: indexOf_None)
  next
    case (Some i)
    from indexOf_split [OF Some] have b: "b = take i b @ LF # drop (Suc i) b"
      and l: "LF \<notin> set (take i b)" by simp_all
    have "length (drop (Suc i) b) < length b"
      using indexOf_less [OF Some] by simp
    with 1 have "P (drop (Suc i) b)" by blast
    from assms(2) [OF l this] b show ?thesis by simp
  qed
qed

subsection \<open>One line of the code, one line of the protocol\<close>

lemma endsWith_CR: "endsWith l [CR] \<longleftrightarrow> l \<noteq> [] \<and> last l = CR"
proof (cases l rule: rev_cases)
  case Nil
  then show ?thesis by (simp add: endsWith_def)
next
  case (snoc ys y)
  then show ?thesis by (simp add: endsWith_def)
qed

lemma startsWith_data: "startsWith l (js ''data:'') \<longleftrightarrow> is_data l"
proof -
  have "length (js ''data:'') = 5" by (simp add: js_def)
  then show ?thesis by (simp add: startsWith_def is_data_def)
qed

lemma strip_SP:
  "(if startsWith d [SP] then drop 1 d else d)
     = (case d of [] \<Rightarrow> [] | c # cs \<Rightarrow> if c = SP then cs else c # cs)"
  by (cases d) (auto simp: startsWith_def)

lemma processLines_tail: "LF \<notin> set b \<Longrightarrow> processLines r b st = (r, b, st)"
  by (subst processLines.simps) (simp add: indexOf_None [symmetric])

lemma processLines_line:
  assumes "LF \<notin> set l"
  shows "processLines r (l @ LF # t) st =
     (case frame_of l of
        Sentinel \<Rightarrow> (cancel r, [], st)
      | Delta d \<Rightarrow> processLines r t (appendToAssistant d st)
      | Ignored \<Rightarrow> processLines r t st)"
  by (subst processLines.simps)
     (simp add: indexOf_line [OF assms] Let_def frame_of_def endsWith_CR strip_cr_def
        startsWith_data strip_SP payload_def)


subsection \<open>Lines, payloads and deltas of a text, line by line\<close>

lemma terminated_lines_tail: "LF \<notin> set b \<Longrightarrow> terminated_lines b = []"
  by (induction b) auto

lemma terminated_lines_line:
  "LF \<notin> set l \<Longrightarrow> terminated_lines (l @ LF # t) = l # terminated_lines t"
  by (induction l) auto

lemma unterminated_tail: "LF \<notin> set b \<Longrightarrow> unterminated b = b"
proof -
  assume "LF \<notin> set b"
  then have "takeWhile (\<lambda>c. c \<noteq> LF) (rev b) = rev b"
    by (intro takeWhile_eq_all_conv [THEN iffD2]) auto
  then show ?thesis by (simp only: unterminated_def rev_rev_ident)
qed

lemma unterminated_line: "unterminated (l @ LF # t) = unterminated t"
  by (simp add: unterminated_def takeWhile_tail)

lemma unterminated_no_LF: "LF \<notin> set (unterminated t)"
  by (auto simp: unterminated_def dest: set_takeWhileD)

lemma payloads_tail: "LF \<notin> set b \<Longrightarrow> payloads b = []"
  by (simp add: payloads_def wire_lines_def terminated_lines_tail)

lemma payloads_line:
  "LF \<notin> set l \<Longrightarrow> payloads (l @ LF # t) =
     (if is_data (strip_cr l) then [payload (strip_cr l)] else []) @ payloads t"
  by (simp add: payloads_def wire_lines_def terminated_lines_line)

lemma has_sentinel_tail: "LF \<notin> set b \<Longrightarrow> \<not> has_sentinel b"
  by (simp add: has_sentinel_def payloads_tail)

lemma deltas_tail: "LF \<notin> set b \<Longrightarrow> deltas b = []"
  by (simp add: deltas_def payloads_tail)

lemma has_sentinel_line:
  "LF \<notin> set l \<Longrightarrow> has_sentinel (l @ LF # t) \<longleftrightarrow> frame_of l = Sentinel \<or> has_sentinel t"
  by (auto simp: has_sentinel_def payloads_line frame_of_def Let_def)

lemma deltas_line:
  "LF \<notin> set l \<Longrightarrow> deltas (l @ LF # t) =
     (case frame_of l of Sentinel \<Rightarrow> [] | Delta d \<Rightarrow> d # deltas t | Ignored \<Rightarrow> deltas t)"
  by (simp add: deltas_def payloads_line frame_of_def Let_def)

subsection \<open>The inner loop computes the deltas of the buffer\<close>

lemma processLines_deltas:
  "processLines r b st =
     (if has_sentinel b then (cancel r, [], fold appendToAssistant (deltas b) st)
      else (r, unterminated b, fold appendToAssistant (deltas b) st))"
proof (induction b arbitrary: st rule: lines_induct)
  case (tail b)
  then show ?case
    by (simp add: processLines_tail has_sentinel_tail deltas_tail unterminated_tail)
next
  case (line l t)
  show ?case
  proof (cases "frame_of l")
    case Ignored
    with line show ?thesis
      by (simp add: processLines_line has_sentinel_line deltas_line unterminated_line)
  next
    case Sentinel
    with line show ?thesis
      by (simp add: processLines_line has_sentinel_line deltas_line)
  next
    case (Delta d)
    with line show ?thesis
      by (simp add: processLines_line has_sentinel_line deltas_line unterminated_line)
  qed
qed

subsection \<open>Text arriving in pieces\<close>

lemma payloads_append:
  "payloads (t @ u) = payloads t @ payloads (unterminated t @ u)"
proof (induction t rule: lines_induct)
  case (tail b)
  then show ?case by (simp add: payloads_tail unterminated_tail)
next
  case (line l t)
  then show ?case by (simp add: payloads_line unterminated_line)
qed

lemma unterminated_append:
  "unterminated (t @ u) = unterminated (unterminated t @ u)"
proof (induction t rule: lines_induct)
  case (tail b)
  then show ?case by (simp add: unterminated_tail)
next
  case (line l t)
  then show ?case by (simp add: unterminated_line)
qed

lemma has_sentinel_append:
  "has_sentinel (t @ u) \<longleftrightarrow> has_sentinel t \<or> has_sentinel (unterminated t @ u)"
  by (simp add: has_sentinel_def payloads_append [of t u])

lemma deltas_append_sentinel: "has_sentinel t \<Longrightarrow> deltas (t @ u) = deltas t"
  by (simp add: has_sentinel_def deltas_def payloads_append [of t u] takeWhile_append1)

lemma deltas_append:
  assumes "\<not> has_sentinel t"
  shows "deltas (t @ u) = deltas t @ deltas (unterminated t @ u)"
proof -
  have all: "\<And>p. p \<in> set (payloads t) \<Longrightarrow> p \<noteq> js ''[END]''"
    using assms by (auto simp: has_sentinel_def)
  then have "takeWhile (\<lambda>p. p \<noteq> js ''[END]'') (payloads t) = payloads t"
    by (intro takeWhile_eq_all_conv [THEN iffD2]) auto
  moreover have "takeWhile (\<lambda>p. p \<noteq> js ''[END]'') (payloads t @ payloads (unterminated t @ u))
      = payloads t @ takeWhile (\<lambda>p. p \<noteq> js ''[END]'') (payloads (unterminated t @ u))"
    using all by (rule takeWhile_append2)
  ultimately show ?thesis
    by (simp only: deltas_def payloads_append [of t u] map_append)
qed


subsection \<open>Bytes arriving in pieces\<close>

lemma utf8_run_append:
  "utf8_run d (v @ w) =
     (case utf8_run d v of (o1, d1) \<Rightarrow> case utf8_run d1 w of (o2, d2) \<Rightarrow> (o1 @ o2, d2))"
  by (induction v arbitrary: d) (auto split: prod.splits)

lemma serialize_append:
  "serialize seen (xs @ ys) =
     (case serialize seen xs of (s1, seen1) \<Rightarrow>
        case serialize seen1 ys of (s2, seen2) \<Rightarrow> (s1 @ s2, seen2))"
  by (induction xs arbitrary: seen) (auto split: prod.splits)

lemma decode_append:
  "decode dec (v @ w) =
     (case decode dec v of (s1, dec1) \<Rightarrow> case decode dec1 w of (s2, dec2) \<Rightarrow> (s1 @ s2, dec2))"
  by (simp add: decode_def utf8_run_append serialize_append split: prod.splits)

lemma decode_Nil: "decode dec [] = ([], dec)"
  by (simp add: decode_def)

subsection \<open>The outer loop\<close>

lemma readLoop_done: "readLoop (getReader []) dec b st = (None, getReader [], b, st)"
  by (subst readLoop.simps) (simp add: read_def getReader_def)

lemma readLoop_cancelled: "cancelled r \<Longrightarrow> readLoop r dec b st = (None, r, b, st)"
  by (subst readLoop.simps) (simp add: read_def)

lemma readLoop_error:
  "readLoop (getReader (ReadError e # evs)) dec b st = (Some e, getReader evs, b, st)"
  by (subst readLoop.simps) (simp add: read_def getReader_def)

lemma readLoop_chunk:
  "readLoop (getReader (Chunk c # evs)) dec b st =
     (case decode dec c of (s, dec') \<Rightarrow>
        if has_sentinel (b @ s)
        then (None, cancel (getReader evs), [], fold appendToAssistant (deltas (b @ s)) st)
        else readLoop (getReader evs) dec' (unterminated (b @ s))
               (fold appendToAssistant (deltas (b @ s)) st))"
  by (subst readLoop.simps)
     (simp add: read_def getReader_def processLines_deltas readLoop_cancelled cancel_def
        split: prod.splits)

lemma readLoop_chunks_sentinel:
  assumes "LF \<notin> set b" "decode dec (concat cs) = (s, dec')" "has_sentinel (b @ s)"
  shows "\<exists>pre. readLoop (getReader (map Chunk cs @ evs)) dec b st =
           (None, cancel (getReader (pre @ evs)), [], fold appendToAssistant (deltas (b @ s)) st)"
  using assms
proof (induction cs arbitrary: b dec s st dec')
  case Nil
  then show ?case by (simp add: decode_Nil has_sentinel_tail)
next
  case (Cons c cs)
  obtain s1 dec1 where d1: "decode dec c = (s1, dec1)" by force
  obtain s2 dec2 where d2: "decode dec1 (concat cs) = (s2, dec2)" by force
  have s: "s = s1 @ s2"
    using Cons.prems(2) d1 d2 by (simp add: decode_append)
  show ?case
  proof (cases "has_sentinel (b @ s1)")
    case True
    then have "deltas (b @ s) = deltas (b @ s1)"
      using deltas_append_sentinel [of "b @ s1" s2] s by simp
    with True d1 have "readLoop (getReader (map Chunk (c # cs) @ evs)) dec b st =
        (None, cancel (getReader (map Chunk cs @ evs)), [], fold appendToAssistant (deltas (b @ s)) st)"
      by (simp add: readLoop_chunk)
    then show ?thesis by blast
  next
    case False
    let ?b = "unterminated (b @ s1)"
    have sent: "has_sentinel (?b @ s2)"
      using Cons.prems(3) False has_sentinel_append [of "b @ s1" s2] s by simp
    from Cons.IH [OF unterminated_no_LF d2 sent]
    obtain pre where "readLoop (getReader (map Chunk cs @ evs)) dec1 ?b
          (fold appendToAssistant (deltas (b @ s1)) st) =
        (None, cancel (getReader (pre @ evs)), [],
         fold appendToAssistant (deltas (?b @ s2)) (fold appendToAssistant (deltas (b @ s1)) st))"
      by blast
    moreover have "deltas (b @ s) = deltas (b @ s1) @ deltas (?b @ s2)"
      using deltas_append [OF False, of s2] s by simp
    ultimately have "readLoop (getReader (map Chunk (c # cs) @ evs)) dec b st =
        (None, cancel (getReader (pre @ evs)), [], fold appendToAssistant (deltas (b @ s)) st)"
      using False d1 by (simp add: readLoop_chunk)
    then show ?thesis by blast
  qed
qed

lemma readLoop_chunks:
  assumes "LF \<notin> set b" "decode dec (concat cs) = (s, dec')" "\<not> has_sentinel (b @ s)"
  shows "readLoop (getReader (map Chunk cs @ evs)) dec b st =
           readLoop (getReader evs) dec' (unterminated (b @ s))
             (fold appendToAssistant (deltas (b @ s)) st)"
  using assms
proof (induction cs arbitrary: b dec s st dec')
  case Nil
  then show ?case by (simp add: decode_Nil deltas_tail unterminated_tail)
next
  case (Cons c cs)
  obtain s1 dec1 where d1: "decode dec c = (s1, dec1)" by force
  obtain s2 dec2 where d2: "decode dec1 (concat cs) = (s2, dec2)" by force
  have s: "s = s1 @ s2" and dec': "dec' = dec2"
    using Cons.prems(2) d1 d2 by (simp_all add: decode_append)
  let ?b = "unterminated (b @ s1)"
  have no1: "\<not> has_sentinel (b @ s1)" and no2: "\<not> has_sentinel (?b @ s2)"
    using Cons.prems(3) has_sentinel_append [of "b @ s1" s2] s by simp_all
  have "deltas (b @ s) = deltas (b @ s1) @ deltas (?b @ s2)"
    using deltas_append [OF no1, of s2] s by simp
  moreover have "unterminated (b @ s) = unterminated (?b @ s2)"
    using unterminated_append [of "b @ s1" s2] s by simp
  ultimately show ?case
    using Cons.IH [OF unterminated_no_LF d2 no2] no1 d1 dec'
    by (simp add: readLoop_chunk)
qed


section \<open>Sending\<close>

lemma appendToAssistant_sending: "appendToAssistant d (sending st t) = sending st (t @ d)"
proof -
  have "nat (int (length (messages st)) + 1) = Suc (length (messages st))"
    by simp
  then show ?thesis
    by (simp add: appendToAssistant_def sending_def Let_def nth_append list_update_append
          del: of_nat_Suc)
qed

lemma fold_sending: "fold appendToAssistant ds (sending st t) = sending st (t @ concat ds)"
  by (induction ds arbitrary: t) (simp_all add: appendToAssistant_sending)

lemma sending_done: "(sending st t)\<lparr>loading := False\<rparr> = answered st t"
  by (simp add: sending_def answered_def)

lemma onSend_rejected:
  "trim (input st) = [] \<or> loading st \<Longrightarrow>
   onSend fetch st = \<lparr>outcome = Rejected, page_after = st, stream_reader = None\<rparr>"
  by (auto simp: onSend_def Let_def)

lemma onSend_started:
  assumes "trim (input st) \<noteq> []" "\<not> loading st"
  shows "onSend fetch st =
     (case tryBlock fetch (trim (input st)) (sending st []) of
        (None, rd, p) \<Rightarrow>
          \<lparr>outcome = Completed, page_after = p\<lparr>loading := False\<rparr>, stream_reader = rd\<rparr>
      | (Some e, rd, p) \<Rightarrow>
          \<lparr>outcome = Failed,
           page_after = (appendToAssistant (failureNotice e) p)\<lparr>loading := False\<rparr>,
           stream_reader = rd\<rparr>)"
  using assms by (cases st) (simp add: onSend_def Let_def sending_def add.commute)

lemma onSend_failed:
  assumes "trim (input st) \<noteq> []" "\<not> loading st"
    and "tryBlock fetch (trim (input st)) (sending st []) = (Some e, rd, sending st t)"
  shows "onSend fetch st =
     \<lparr>outcome = Failed, page_after = answered st (t @ failureNotice e), stream_reader = rd\<rparr>"
  using assms(3)
  by (simp add: onSend_started [OF assms(1,2)] appendToAssistant_sending sending_done)

lemma onSend_completed:
  assumes "trim (input st) \<noteq> []" "\<not> loading st"
    and "tryBlock fetch (trim (input st)) (sending st []) = (None, rd, sending st t)"
  shows "onSend fetch st =
     \<lparr>outcome = Completed, page_after = answered st t, stream_reader = rd\<rparr>"
  using assms(3)
  by (simp add: onSend_started [OF assms(1,2)] sending_done)

lemma tryBlock_stream:
  assumes "fetch (ask_stream_request q) = Resolved r" "ok r" "response_body r = Some evs"
  shows "tryBlock fetch q p =
     (case readLoop (getReader evs) new_TextDecoder [] p of
        (e, reader, buffer, p') \<Rightarrow> (e, Some reader, p'))"
  using assms by (simp add: tryBlock_def)

lemma decoded_eq: "decode new_TextDecoder bs = (decoded bs, snd (decode new_TextDecoder bs))"
  by (simp add: decoded_def)

lemma decoded_append: "\<exists>s. decoded (bs @ extra) = decoded bs @ s"
  by (auto simp: decoded_def decode_append split: prod.splits)


lemma readLoop_fresh_sentinel:
  assumes "has_sentinel (decoded (concat cs))"
  shows "\<exists>pre. readLoop (getReader (map Chunk cs @ evs)) new_TextDecoder [] p =
           (None, cancel (getReader (pre @ evs)), [],
            fold appendToAssistant (deltas (decoded (concat cs))) p)"
proof -
  have "LF \<notin> set ([] :: jsstring)" by simp
  from readLoop_chunks_sentinel [OF this decoded_eq, of cs evs p] assms
  show ?thesis by simp
qed

lemma readLoop_fresh:
  assumes "\<not> has_sentinel (decoded (concat cs))"
  shows "readLoop (getReader (map Chunk cs @ evs)) new_TextDecoder [] p =
           readLoop (getReader evs) (snd (decode new_TextDecoder (concat cs)))
             (unterminated (decoded (concat cs)))
             (fold appendToAssistant (deltas (decoded (concat cs))) p)"
proof -
  have "LF \<notin> set ([] :: jsstring)" by simp
  from readLoop_chunks [OF this decoded_eq, of cs evs p] assms
  show ?thesis by simp
qed

lemma readLoop_whole:
  "\<exists>rd b. readLoop (getReader (map Chunk cs)) new_TextDecoder [] p =
     (None, rd, b, fold appendToAssistant (deltas (decoded (concat cs))) p)"
proof (cases "has_sentinel (decoded (concat cs))")
  case True
  from readLoop_fresh_sentinel [OF this, of "[]" p] show ?thesis by auto
next
  case False
  from readLoop_fresh [OF this, of "[]" p] show ?thesis by (simp add: readLoop_done)
qed

lemma frame_of_Hello:
  "frame_of (js ''data: Hello'') = Delta (js ''Hello'')"
  "frame_of (js ''data:  Hello'') = Delta (js '' Hello'')"
  "frame_of (js ''data:'') = Delta [LF]"
  by (simp_all add: frame_of_def strip_cr_def is_data_def payload_def js_def LF_def CR_def SP_def)

lemma no_LF_examples:
  "LF \<notin> set (js ''data: Hello'')" "LF \<notin> set (js ''data:  Hello'')" "LF \<notin> set (js ''data:'')"
  by (simp_all add: js_def LF_def)

lemma onSend_stream_ended:
  assumes "trim (input st) \<noteq> []" and "\<not> loading st"
    and "fetch (ask_stream_request (trim (input st))) = Resolved r"
    and "ok r" and "response_body r = Some (map Chunk cs)"
  shows "\<exists>rd. onSend fetch st =
           \<lparr>outcome = Completed,
            page_after = answered st (concat (deltas (decoded (concat cs)))),
            stream_reader = Some rd\<rparr>"
proof -
  obtain rd' b where "readLoop (getReader (map Chunk cs)) new_TextDecoder [] (sending st [])
      = (None, rd', b, sending st (concat (deltas (decoded (concat cs)))))"
    using readLoop_whole [of cs "sending st []"] by (auto simp: fold_sending)
  then have "tryBlock fetch (trim (input st)) (sending st [])
      = (None, Some rd', sending st (concat (deltas (decoded (concat cs)))))"
    using tryBlock_stream [of fetch "trim (input st)" r "map Chunk cs" "sending st []"] assms(3-5)
    by simp
  from onSend_completed [OF assms(1,2) this] show ?thesis by blast
qed

lemma processLines_one_delta:
  assumes "LF \<notin> set l" "frame_of l = Delta d"
  shows "processLines rd (l @ [LF]) p = (rd, [], appendToAssistant d p)"
  using processLines_line [OF assms(1), of rd "[]" p] assms(2)
  by (simp add: processLines_tail)

lemmas decode_eval = decoded_def decode_def utf8_handler_def utf8_first_def utf8_initial_def
  new_TextDecoder_def utf16_def utf8_bytes_def

lemmas wire_eval = deltas_def payloads_def wire_lines_def strip_cr_def is_data_def payload_def
  has_sentinel_def js_def LF_def CR_def SP_def

lemmas page_eval = asking_def initial_page_def trim_def isWhiteSpace_def js_def


section \<open>Failures\<close>

lemma tryBlock_rejected:
  "fetch (ask_stream_request q) = FetchRejected e \<Longrightarrow> tryBlock fetch q p = (Some e, None, p)"
  by (simp add: tryBlock_def)

lemma tryBlock_status:
  "fetch (ask_stream_request q) = Resolved r \<Longrightarrow> \<not> ok r \<Longrightarrow>
   tryBlock fetch q p =
     (Some (Error (Some (trim (js ''HTTP '' @ digits (status r) @ js ''. ''
        @ (case response_text r of Inl _ \<Rightarrow> [] | Inr t \<Rightarrow> t))))), None, p)"
  by (simp add: tryBlock_def Let_def)

lemma tryBlock_no_body:
  "fetch (ask_stream_request q) = Resolved r \<Longrightarrow> ok r \<Longrightarrow> response_body r = None \<Longrightarrow>
   tryBlock fetch q p = (Some (Error (Some (js ''No response body (stream missing).''))), None, p)"
  by (simp add: tryBlock_def)

lemma readLoop_broken:
  assumes "\<not> has_sentinel (decoded (concat cs))"
  shows "\<exists>b. readLoop (getReader (map Chunk cs @ ReadError e # evs)) new_TextDecoder [] p =
           (Some e, getReader evs, b, fold appendToAssistant (deltas (decoded (concat cs))) p)"
  using readLoop_fresh [OF assms, of "ReadError e # evs" p] by (simp add: readLoop_error)

lemma trim_inner:
  assumes "a \<noteq> []" "\<not> isWhiteSpace (hd a)" "\<not> isWhiteSpace (last a)"
  shows "trim (a @ m) = a @ rev (dropWhile isWhiteSpace (rev m))"
proof -
  obtain x xs where a: "a = x # xs" using assms(1) by (cases a) auto
  obtain ys y where a': "a = ys @ [y]" using assms(1) by (cases a rule: rev_cases) auto
  have "dropWhile isWhiteSpace (a @ m) = a @ m"
    using assms(2) a by simp
  moreover have "dropWhile isWhiteSpace (rev m @ y # rev ys)
      = dropWhile isWhiteSpace (rev m) @ y # rev ys"
    using assms(3) a' by (simp add: dropWhile_append3)
  ultimately show ?thesis
    using a' by (simp add: trim_def)
qed

lemma failureNotice_reads:
  "\<exists>m. failureNotice e = [LF, LF] @ js ''Streaming failed.'' @ m"
proof -
  let ?m = "case message e of None \<Rightarrow> [] | Some m \<Rightarrow> m"
  have "js ''Streaming failed. '' @ ?m = js ''Streaming failed.'' @ (SP # ?m)"
    by (simp add: js_def SP_def)
  moreover have "trim (js ''Streaming failed.'' @ (SP # ?m))
      = js ''Streaming failed.'' @ rev (dropWhile isWhiteSpace (rev (SP # ?m)))"
    by (rule trim_inner) (simp_all add: js_def isWhiteSpace_def)
  ultimately show ?thesis
    by (simp add: failureNotice_def)
qed

section \<open>Line terminators\<close>

lemma strip_cr_CR: "strip_cr (l @ [CR]) = l"
  by (simp add: strip_cr_def)

lemma strip_cr_plain: "\<not> endsWith l [CR] \<Longrightarrow> strip_cr l = l"
  by (auto simp: strip_cr_def endsWith_CR)

lemma payloads_crlf_stream:
  assumes "\<forall>l \<in> set ls. LF \<notin> set l"
  shows "payloads (crlf_stream ls) = map payload (filter is_data ls)"
  using assms
proof (induction ls)
  case Nil
  then show ?case by (simp add: crlf_stream_def payloads_tail)
next
  case (Cons l ls)
  then have l: "LF \<notin> set (l @ [CR])"
    and IH: "payloads (crlf_stream ls) = map payload (filter is_data ls)"
    by (simp_all add: LF_def CR_def)
  have "crlf_stream (l # ls) = (l @ [CR]) @ LF # crlf_stream ls"
    by (simp add: crlf_stream_def)
  then show ?case
    using payloads_line [OF l, of "crlf_stream ls"] IH by (simp add: strip_cr_CR)
qed

lemma payloads_lf_stream:
  assumes "\<forall>l \<in> set ls. LF \<notin> set l \<and> \<not> endsWith l [CR]"
  shows "payloads (lf_stream ls) = map payload (filter is_data ls)"
  using assms
proof (induction ls)
  case Nil
  then show ?case by (simp add: lf_stream_def payloads_tail)
next
  case (Cons l ls)
  then have l: "LF \<notin> set l" "\<not> endsWith l [CR]"
    and IH: "payloads (lf_stream ls) = map payload (filter is_data ls)"
    by simp_all
  have "lf_stream (l # ls) = l @ LF # lf_stream ls"
    by (simp add: lf_stream_def)
  then show ?case
    using payloads_line [OF l(1), of "lf_stream ls"] IH by (simp add: strip_cr_plain [OF l(2)])
qed

lemma unterminated_streams: "unterminated (crlf_stream ls) = []" "unterminated (lf_stream ls) = []"
proof -
  show "unterminated (crlf_stream ls) = []"
  proof (induction ls)
    case Nil
    then show ?case by (simp add: crlf_stream_def unterminated_def)
  next
    case (Cons l ls)
    have "crlf_stream (l # ls) = (l @ [CR]) @ LF # crlf_stream ls"
      by (simp add: crlf_stream_def)
    with Cons show ?case by (simp only: unterminated_line)
  qed
  show "unterminated (lf_stream ls) = []"
  proof (induction ls)
    case Nil
    then show ?case by (simp add: lf_stream_def unterminated_def)
  next
    case (Cons l ls)
    have "lf_stream (l # ls) = l @ LF # lf_stream ls"
      by (simp add: lf_stream_def)
    with Cons show ?case by (simp only: unterminated_line)
  qed
qed

text \<open>
  C1. When the backend answers a send with a stream of chunks that then ends, the text of
  the in-flight assistant Message ends up as the concatenation of the deltas of the decoded
  stream: the payloads of its \<^verbatim>\<open>data:\<close> lines before the sentinel frame, each taken after
  the five-character prefix less one separator space, an empty payload counting as a line
  feed. In particular the line \<^verbatim>\<open>data: Hello\<close> applies the delta \<^verbatim>\<open>Hello\<close>, the line
  \<^verbatim>\<open>data:  Hello\<close> the delta \<^verbatim>\<open> Hello\<close>, and the line \<^verbatim>\<open>data:\<close> a line feed.
\<close>

theorem deltas_applied:
  assumes "trim (input st) \<noteq> []" and "\<not> loading st"
    and "fetch (ask_stream_request (trim (input st))) = Resolved r"
    and "ok r" and "response_body r = Some (map Chunk cs)"
  shows "page_after (onSend fetch st) = answered st (concat (deltas (decoded (concat cs))))
       \<and> processLines rd (js ''data: Hello'' @ [LF]) p = (rd, [], appendToAssistant (js ''Hello'') p)
       \<and> processLines rd (js ''data:  Hello'' @ [LF]) p = (rd, [], appendToAssistant (js '' Hello'') p)
       \<and> processLines rd (js ''data:'' @ [LF]) p = (rd, [], appendToAssistant [LF] p)"
proof -
  from onSend_stream_ended [where fetch = fetch and st = st and r = r and cs = cs] assms
  have "page_after (onSend fetch st) = answered st (concat (deltas (decoded (concat cs))))"
    by auto
  then show ?thesis
    by (simp add: processLines_one_delta frame_of_Hello no_LF_examples)
qed

theorem deltas_applied_witness:
  "trim (input (asking ''hi'')) \<noteq> [] \<and> \<not> loading (asking ''hi'')
 \<and> page_after (onSend (streaming_backend
        (map Chunk [utf8_bytes ''data: The answer\<newline>data: is'',
                    utf8_bytes '' 42.\<newline>data:[END]\<newline>data: more\<newline>'']))
      (asking ''hi''))
   = answered (asking ''hi'') (js ''The answeris 42.'')"
proof -
  have h1: "trim (input (asking ''hi'')) \<noteq> []" and h2: "\<not> loading (asking ''hi'')"
    by (simp_all add: page_eval)
  let ?cs = "[utf8_bytes ''data: The answer\<newline>data: is'',
              utf8_bytes '' 42.\<newline>data:[END]\<newline>data: more\<newline>'']"
  let ?r = "\<lparr>status = 200, response_body = Some (map Chunk ?cs),
             response_text = Inr [], response_json = Inl (Error None)\<rparr> :: answer_body response"
  have h3: "streaming_backend (map Chunk ?cs) (ask_stream_request (trim (input (asking ''hi''))))
      = Resolved ?r"
    by (simp add: streaming_backend_def)
  have h4: "ok ?r" and h5: "response_body ?r = Some (map Chunk ?cs)"
    by (simp_all add: ok_def)
  have "decoded (concat ?cs)
      = js ''data: The answer\<newline>data: is 42.\<newline>data:[END]\<newline>data: more\<newline>''"
    by (simp add: decode_eval js_def)
  moreover have "concat (deltas
      (js ''data: The answer\<newline>data: is 42.\<newline>data:[END]\<newline>data: more\<newline>''))
      = js ''The answeris 42.''"
    by (simp add: wire_eval)
  ultimately show ?thesis
    using deltas_applied [where st = "asking ''hi''" and r = ?r and cs = ?cs
        and fetch = "streaming_backend (map Chunk ?cs)"] h1 h2 h3 h4 h5
    by simp
qed

text \<open>
  C2. For two ways of cutting the same byte stream into chunks (the concatenations of the
  two chunk sequences are equal), a send answered with the one and a send answered with the
  other leave the same page, so the same in-flight Message text, and end the same way;
  the cuts may fall inside a line, inside a multi-byte character or after several lines.
\<close>

theorem chunking_invariance:
  assumes "concat cs = concat cs'"
    and "fetch (ask_stream_request (trim (input st))) = Resolved r"
    and "ok r" and "response_body r = Some (map Chunk cs)"
    and "fetch' (ask_stream_request (trim (input st))) = Resolved r'"
    and "ok r'" and "response_body r' = Some (map Chunk cs')"
  shows "page_after (onSend fetch st) = page_after (onSend fetch' st)
       \<and> outcome (onSend fetch st) = outcome (onSend fetch' st)"
proof (cases "trim (input st) = [] \<or> loading st")
  case True
  then show ?thesis by (simp add: onSend_rejected)
next
  case False
  then have q: "trim (input st) \<noteq> []" and l: "\<not> loading st" by simp_all
  from onSend_stream_ended [where fetch = fetch and st = st and r = r and cs = cs]
    onSend_stream_ended [where fetch = fetch' and st = st and r = r' and cs = cs'] q l assms
  show ?thesis by auto
qed

theorem chunking_invariance_witness:
  "concat [[0x64, 0x61, 0x74, 0x61, 0x3A, 0x20, 0xC3, 0xA9, 0x0A :: byte]]
     = concat [[0x64], [0x61, 0x74], [0x61, 0x3A, 0x20, 0xC3], [0xA9], [0x0A]]
 \<and> page_after (onSend (streaming_backend
        (map Chunk [[0x64, 0x61, 0x74, 0x61, 0x3A, 0x20, 0xC3, 0xA9, 0x0A]])) (asking ''hi''))
   = page_after (onSend (streaming_backend
        (map Chunk [[0x64], [0x61, 0x74], [0x61, 0x3A, 0x20, 0xC3], [0xA9], [0x0A]])) (asking ''hi''))"
proof -
  let ?cs = "[[0x64, 0x61, 0x74, 0x61, 0x3A, 0x20, 0xC3, 0xA9, 0x0A :: byte]]"
  let ?cs' = "[[0x64], [0x61, 0x74], [0x61, 0x3A, 0x20, 0xC3], [0xA9], [0x0A :: byte]]"
  let ?r = "\<lambda>cs. \<lparr>status = 200, response_body = Some (map Chunk cs),
             response_text = Inr [], response_json = Inl (Error None)\<rparr> :: answer_body response"
  have h1: "concat ?cs = concat ?cs'" by simp
  have h2: "streaming_backend (map Chunk cs) (ask_stream_request (trim (input (asking ''hi''))))
      = Resolved (?r cs)" for cs
    by (simp add: streaming_backend_def)
  show ?thesis
    using chunking_invariance [where st = "asking ''hi''" and cs = ?cs and cs' = ?cs'
        and r = "?r ?cs" and r' = "?r ?cs'"
        and fetch = "streaming_backend (map Chunk ?cs)"
        and fetch' = "streaming_backend (map Chunk ?cs')"]
      h1 h2 [of ?cs] h2 [of ?cs']
    by (simp add: ok_def)
qed

text \<open>
  C3. Let the decoded text of the bytes \<open>bs\<close> hold a sentinel line. Whatever bytes
  \<open>extra\<close> follow \<open>bs\<close> in the chunks, however \<open>bs @ extra\<close> is cut into chunks, and
  whatever events \<open>evs\<close> the stream would deliver after them, the read loop ends without
  an exception, with the reader cancelled and \<open>evs\<close> still unread, with the buffer empty,
  and with exactly the deltas of \<open>bs\<close> applied to the page: nothing that follows the
  sentinel line reaches the Message.
\<close>

theorem sentinel_ends_stream:
  assumes "has_sentinel (decoded bs)" and "concat cs = bs @ extra"
  shows "\<exists>pre. readLoop (getReader (map Chunk cs @ evs)) new_TextDecoder [] p =
           (None, \<lparr>pending = pre @ evs, cancelled = True\<rparr>, [],
            fold appendToAssistant (deltas (decoded bs)) p)"
proof -
  obtain s where s: "decoded (concat cs) = decoded bs @ s"
    using decoded_append [of bs extra] assms(2) by auto
  have sent: "has_sentinel (decoded (concat cs))"
    using assms(1) s has_sentinel_append [of "decoded bs" s] by simp
  have "deltas (decoded (concat cs)) = deltas (decoded bs)"
    using deltas_append_sentinel [OF assms(1), of s] s by simp
  with readLoop_fresh_sentinel [OF sent, of evs p] show ?thesis
    by (simp add: cancel_def getReader_def)
qed

theorem sentinel_ends_stream_witness:
  "has_sentinel (decoded (utf8_bytes ''data: a\<newline>data:[END]\<newline>''))
 \<and> (\<exists>pre. readLoop (getReader (map Chunk [utf8_bytes ''data: a\<newline>da'',
                                               utf8_bytes ''ta:[END]\<newline>data: b\<newline>'']
                                   @ [Chunk (utf8_bytes ''data: c\<newline>''), ReadError (Error None)]))
        new_TextDecoder [] (sending (asking ''hi'') []) =
      (None, \<lparr>pending = pre @ [Chunk (utf8_bytes ''data: c\<newline>''), ReadError (Error None)],
               cancelled = True\<rparr>, [],
       sending (asking ''hi'') (js ''a'')))"
proof -
  have d: "decoded (utf8_bytes ''data: a\<newline>data:[END]\<newline>'') = js ''data: a\<newline>data:[END]\<newline>''"
    by (simp add: decode_eval js_def)
  have h1: "has_sentinel (decoded (utf8_bytes ''data: a\<newline>data:[END]\<newline>''))"
    unfolding d by (simp add: wire_eval)
  have h2: "concat [utf8_bytes ''data: a\<newline>da'', utf8_bytes ''ta:[END]\<newline>data: b\<newline>'']
      = utf8_bytes ''data: a\<newline>data:[END]\<newline>'' @ utf8_bytes ''data: b\<newline>''"
    by (simp add: utf8_bytes_def)
  have "concat (deltas (js ''data: a\<newline>data:[END]\<newline>'')) = js ''a''"
    by (simp add: wire_eval)
  then show ?thesis
    using sentinel_ends_stream [OF h1 h2,
        of "[Chunk (utf8_bytes ''data: c\<newline>''), ReadError (Error None)]"
           "sending (asking ''hi'') []"] h1
    by (simp add: d fold_sending)
qed

text \<open>
  C4. The streaming relay does not forward the backend's status, and a failed connection
  leaves the handler as an exception. With the backend answering 500 and the body
  \<^verbatim>\<open>Internal Server Error\<close>, the relay answers 200 with that body as an event stream; with
  the backend unreachable, the handler throws what \<^verbatim>\<open>fetch\<close> threw.
\<close>

theorem ask_stream_POST_status_dropped:
  "ask_stream_POST None server_error_backend (Inr \<lparr>question = js ''hi''\<rparr>) =
     ([backend_request (js ''http://127.0.0.1:8000'') (js ''/ask-stream'') \<lparr>question = js ''hi''\<rparr>],
      Inr \<lparr>reply_status = 200,
           reply_headers = [(js ''Content-Type'', js ''text/event-stream'')],
           reply_body = Stream (Some [Chunk (utf8_bytes ''Internal Server Error'')])\<rparr>)
 \<and> ask_stream_POST None unreachable_backend (Inr \<lparr>question = js ''hi''\<rparr>) =
     ([backend_request (js ''http://127.0.0.1:8000'') (js ''/ask-stream'') \<lparr>question = js ''hi''\<rparr>],
      Inl (Error (Some (js ''fetch failed''))))"
  by (simp add: ask_stream_POST_def backendBase_def server_error_backend_def
        unreachable_backend_def Let_def)

text \<open>
  C5. Take a send that is not rejected. If the request fails, or the response has a
  non-success status, or the response has no body, or a read of the stream fails after the
  chunks \<open>cs\<close> (no sentinel among them), then \<^verbatim>\<open>onSend\<close> ends in its \<^verbatim>\<open>catch\<close> block and
  returns: the operation has failed, \<^verbatim>\<open>loading\<close> is false again, and the in-flight Message
  reads as the deltas applied so far followed by the failure notice. The notice begins with
  two line feeds and the words \<^verbatim>\<open>Streaming failed.\<close>
\<close>

theorem transport_failure:
  assumes "trim (input st) \<noteq> []" and "\<not> loading st"
  shows "(fetch (ask_stream_request (trim (input st))) = FetchRejected e \<longrightarrow>
            onSend fetch st =
              \<lparr>outcome = Failed, page_after = answered st (failureNotice e),
               stream_reader = None\<rparr>)
       \<and> (fetch (ask_stream_request (trim (input st))) = Resolved r \<and> \<not> ok r \<longrightarrow>
            onSend fetch st =
              \<lparr>outcome = Failed,
               page_after = answered st (failureNotice (Error (Some (trim
                  (js ''HTTP '' @ digits (status r) @ js ''. ''
                     @ (case response_text r of Inl _ \<Rightarrow> [] | Inr t \<Rightarrow> t)))))),
               stream_reader = None\<rparr>)
       \<and> (fetch (ask_stream_request (trim (input st))) = Resolved r \<and> ok r
            \<and> response_body r = None \<longrightarrow>
            onSend fetch st =
              \<lparr>outcome = Failed,
               page_after = answered st (failureNotice
                  (Error (Some (js ''No response body (stream missing).'')))),
               stream_reader = None\<rparr>)
       \<and> (fetch (ask_stream_request (trim (input st))) = Resolved r \<and> ok r
            \<and> response_body r = Some (map Chunk cs @ ReadError e # evs)
            \<and> \<not> has_sentinel (decoded (concat cs)) \<longrightarrow>
            onSend fetch st =
              \<lparr>outcome = Failed,
               page_after = answered st (concat (deltas (decoded (concat cs))) @ failureNotice e),
               stream_reader = Some (getReader evs)\<rparr>)
       \<and> (\<exists>m. failureNotice e = [LF, LF] @ js ''Streaming failed.'' @ m)"
proof (intro conjI impI)
  assume "fetch (ask_stream_request (trim (input st))) = FetchRejected e"
  then have "tryBlock fetch (trim (input st)) (sending st []) = (Some e, None, sending st [])"
    by (rule tryBlock_rejected)
  from onSend_failed [OF assms this]
  show "onSend fetch st =
      \<lparr>outcome = Failed, page_after = answered st (failureNotice e), stream_reader = None\<rparr>"
    by simp
next
  let ?e = "Error (Some (trim (js ''HTTP '' @ digits (status r) @ js ''. ''
              @ (case response_text r of Inl _ \<Rightarrow> [] | Inr t \<Rightarrow> t))))"
  assume "fetch (ask_stream_request (trim (input st))) = Resolved r \<and> \<not> ok r"
  then have "tryBlock fetch (trim (input st)) (sending st []) = (Some ?e, None, sending st [])"
    by (simp add: tryBlock_status)
  from onSend_failed [OF assms this]
  show "onSend fetch st =
      \<lparr>outcome = Failed, page_after = answered st (failureNotice ?e), stream_reader = None\<rparr>"
    by simp
next
  let ?e = "Error (Some (js ''No response body (stream missing).''))"
  assume "fetch (ask_stream_request (trim (input st))) = Resolved r \<and> ok r
      \<and> response_body r = None"
  then have "tryBlock fetch (trim (input st)) (sending st []) = (Some ?e, None, sending st [])"
    by (simp add: tryBlock_no_body)
  from onSend_failed [OF assms this]
  show "onSend fetch st =
      \<lparr>outcome = Failed, page_after = answered st (failureNotice ?e), stream_reader = None\<rparr>"
    by simp
next
  let ?t = "concat (deltas (decoded (concat cs)))"
  assume h: "fetch (ask_stream_request (trim (input st))) = Resolved r \<and> ok r
      \<and> response_body r = Some (map Chunk cs @ ReadError e # evs)
      \<and> \<not> has_sentinel (decoded (concat cs))"
  then obtain b where
    "readLoop (getReader (map Chunk cs @ ReadError e # evs)) new_TextDecoder [] (sending st [])
       = (Some e, getReader evs, b, sending st ?t)"
    using readLoop_broken [of cs e evs "sending st []"] by (auto simp: fold_sending)
  then have "tryBlock fetch (trim (input st)) (sending st [])
      = (Some e, Some (getReader evs), sending st ?t)"
    using h tryBlock_stream [of fetch "trim (input st)" r
        "map Chunk cs @ ReadError e # evs" "sending st []"]
    by simp
  from onSend_failed [OF assms this]
  show "onSend fetch st =
      \<lparr>outcome = Failed, page_after = answered st (?t @ failureNotice e),
       stream_reader = Some (getReader evs)\<rparr>"
    by simp
next
  show "\<exists>m. failureNotice e = [LF, LF] @ js ''Streaming failed.'' @ m"
    by (rule failureNotice_reads)
qed


theorem transport_failure_witness:
  "onSend unreachable_backend (asking ''hi'') =
     \<lparr>outcome = Failed,
      page_after = answered (asking ''hi'') ([LF, LF] @ js ''Streaming failed. fetch failed''),
      stream_reader = None\<rparr>
 \<and> onSend failing_backend (asking ''hi'') =
     \<lparr>outcome = Failed,
      page_after = answered (asking ''hi'') ([LF, LF] @ js ''Streaming failed. HTTP 500.''),
      stream_reader = None\<rparr>
 \<and> onSend bodyless_backend (asking ''hi'') =
     \<lparr>outcome = Failed,
      page_after = answered (asking ''hi'')
        ([LF, LF] @ js ''Streaming failed. No response body (stream missing).''),
      stream_reader = None\<rparr>
 \<and> onSend (streaming_backend [Chunk (utf8_bytes ''data: par''),
                               Chunk (utf8_bytes ''tial\<newline>data: x''),
                               ReadError (Error (Some (js ''network error'')))])
      (asking ''hi'') =
     \<lparr>outcome = Failed,
      page_after = answered (asking ''hi'')
        (js ''partial'' @ [LF, LF] @ js ''Streaming failed. network error''),
      stream_reader = Some (getReader [])\<rparr>"
proof -
  have q: "trim (input (asking ''hi'')) \<noteq> []" and l: "\<not> loading (asking ''hi'')"
    by (simp_all add: page_eval)
  note tf = transport_failure [OF q l]
  have a: "onSend unreachable_backend (asking ''hi'') =
     \<lparr>outcome = Failed,
      page_after = answered (asking ''hi'') ([LF, LF] @ js ''Streaming failed. fetch failed''),
      stream_reader = None\<rparr>"
    using tf [where fetch = unreachable_backend and e = "Error (Some (js ''fetch failed''))"]
    by (simp add: unreachable_backend_def failureNotice_def trim_def isWhiteSpace_def js_def)
  have b: "onSend failing_backend (asking ''hi'') =
     \<lparr>outcome = Failed,
      page_after = answered (asking ''hi'') ([LF, LF] @ js ''Streaming failed. HTTP 500.''),
      stream_reader = None\<rparr>"
    using tf [where fetch = failing_backend
        and r = "\<lparr>status = 500, response_body = None, response_text = Inr [],
                  response_json = Inl (Error None)\<rparr> :: answer_body response"]
    by (simp add: failing_backend_def ok_def failureNotice_def trim_def isWhiteSpace_def js_def)
  have c: "onSend bodyless_backend (asking ''hi'') =
     \<lparr>outcome = Failed,
      page_after = answered (asking ''hi'')
        ([LF, LF] @ js ''Streaming failed. No response body (stream missing).''),
      stream_reader = None\<rparr>"
    using tf [where fetch = bodyless_backend
        and r = "\<lparr>status = 200, response_body = None, response_text = Inr [],
                  response_json = Inl (Error None)\<rparr> :: answer_body response"]
    by (simp add: bodyless_backend_def ok_def failureNotice_def trim_def isWhiteSpace_def js_def)
  let ?cs = "[utf8_bytes ''data: par'', utf8_bytes ''tial\<newline>data: x'']"
  let ?e = "Error (Some (js ''network error''))"
  have dec: "decoded (concat ?cs) = js ''data: partial\<newline>data: x''"
    by (simp add: decode_eval js_def)
  have del: "\<not> has_sentinel (js ''data: partial\<newline>data: x'')"
    "concat (deltas (js ''data: partial\<newline>data: x'')) = js ''partial''"
    by (simp_all add: wire_eval)
  have d: "onSend (streaming_backend [Chunk (utf8_bytes ''data: par''),
                               Chunk (utf8_bytes ''tial\<newline>data: x''), ReadError ?e])
      (asking ''hi'') =
     \<lparr>outcome = Failed,
      page_after = answered (asking ''hi'')
        (js ''partial'' @ [LF, LF] @ js ''Streaming failed. network error''),
      stream_reader = Some (getReader [])\<rparr>"
    using tf [where fetch = "streaming_backend (map Chunk ?cs @ [ReadError ?e])"
        and r = "\<lparr>status = 200, response_body = Some (map Chunk ?cs @ [ReadError ?e]),
                  response_text = Inr [], response_json = Inl (Error None)\<rparr>
                  :: answer_body response"
        and cs = ?cs and e = ?e and evs = "[]"] del
    by (simp add: dec [simplified] streaming_backend_def ok_def)
       (simp add: failureNotice_def trim_def isWhiteSpace_def js_def)
  from a b c d show ?thesis by blast
qed

text \<open>
  C6, a counterexample. The line \<^verbatim>\<open>data: a\<close> followed by a carriage return, sent with an
  LF terminator, loses its carriage return and applies the delta \<^verbatim>\<open>a\<close>; sent with a CR LF
  terminator it keeps it and applies \<^verbatim>\<open>a\<close> followed by a carriage return. The two streams
  of the same line do not give the same deltas.
\<close>

theorem crlf_as_lf_counterexample:
  "processLines (getReader []) (lf_stream [js ''data: a'' @ [CR]]) (sending (asking ''hi'') [])
     = (getReader [], [], sending (asking ''hi'') (js ''a''))
 \<and> processLines (getReader []) (crlf_stream [js ''data: a'' @ [CR]]) (sending (asking ''hi'') [])
     = (getReader [], [], sending (asking ''hi'') (js ''a'' @ [CR]))
 \<and> processLines (getReader []) (lf_stream [js ''data: a'' @ [CR]]) (sending (asking ''hi'') [])
     \<noteq> processLines (getReader []) (crlf_stream [js ''data: a'' @ [CR]]) (sending (asking ''hi'') [])"
proof -
  have lf: "lf_stream [js ''data: a'' @ [CR]] = js ''data: a'' @ [CR, LF]"
    and crlf: "crlf_stream [js ''data: a'' @ [CR]] = js ''data: a'' @ [CR, CR, LF]"
    by (simp_all add: lf_stream_def crlf_stream_def)
  have a: "\<not> has_sentinel (js ''data: a'' @ [CR, LF])"
    "deltas (js ''data: a'' @ [CR, LF]) = [js ''a'']"
    "unterminated (js ''data: a'' @ [CR, LF]) = []"
    by (simp_all add: wire_eval unterminated_def)
  have b: "\<not> has_sentinel (js ''data: a'' @ [CR, CR, LF])"
    "deltas (js ''data: a'' @ [CR, CR, LF]) = [js ''a'' @ [CR]]"
    "unterminated (js ''data: a'' @ [CR, CR, LF]) = []"
    by (simp_all add: wire_eval unterminated_def)
  have "js ''a'' \<noteq> js ''a'' @ [CR]"
    by (simp add: js_def)
  then have "sending (asking ''hi'') (js ''a'') \<noteq> sending (asking ''hi'') (js ''a'' @ [CR])"
    by (simp add: sending_def)
  then show ?thesis
    by (simp add: lf crlf processLines_deltas a b appendToAssistant_sending)
qed

text \<open>
  C6, amended. Take lines that hold no line feed and do not themselves end in a carriage
  return. On the stream that ends each of them with CR LF, the inner loop reads every line
  as its content without the carriage return: it applies to the Message, in order, the
  deltas of the \<^verbatim>\<open>data:\<close> lines before the sentinel frame, leaves the buffer empty, and
  cancels the reader exactly when a sentinel line is among them. On the stream that ends each
  line with LF alone it does the same.
\<close>

theorem crlf_as_lf:
  assumes "\<forall>l \<in> set ls. LF \<notin> set l \<and> \<not> endsWith l [CR]"
  shows "processLines reader (crlf_stream ls) st =
           (if lines_have_sentinel ls then cancel reader else reader, [],
            fold appendToAssistant (line_deltas ls) st)
       \<and> processLines reader (lf_stream ls) st = processLines reader (crlf_stream ls) st"
proof -
  have no_LF: "\<forall>l \<in> set ls. LF \<notin> set l"
    using assms by simp
  have c: "payloads (crlf_stream ls) = map payload (filter is_data ls)"
    using no_LF by (rule payloads_crlf_stream)
  have l: "payloads (lf_stream ls) = map payload (filter is_data ls)"
    using assms by (rule payloads_lf_stream)
  have "has_sentinel (crlf_stream ls) = lines_have_sentinel ls"
    and "deltas (crlf_stream ls) = line_deltas ls"
    and "has_sentinel (lf_stream ls) = lines_have_sentinel ls"
    and "deltas (lf_stream ls) = line_deltas ls"
    by (simp_all add: has_sentinel_def deltas_def lines_have_sentinel_def line_deltas_def c l)
  then show ?thesis
    by (simp add: processLines_deltas unterminated_streams)
qed

theorem crlf_as_lf_witness:
  "processLines (getReader [])
     (crlf_stream [js ''data: Hello'', js ''id: 7'', js ''data:'', js ''data:  x''])
     (sending (asking ''hi'') [])
     = (getReader [], [], sending (asking ''hi'') (js ''Hello'' @ [LF] @ js '' x''))
 \<and> processLines (getReader [])
     (lf_stream [js ''data: Hello'', js ''id: 7'', js ''data:'', js ''data:  x''])
     (sending (asking ''hi'') [])
     = (getReader [], [], sending (asking ''hi'') (js ''Hello'' @ [LF] @ js '' x''))"
proof -
  let ?ls = "[js ''data: Hello'', js ''id: 7'', js ''data:'', js ''data:  x'']"
  have h: "\<forall>l \<in> set ?ls. LF \<notin> set l \<and> \<not> endsWith l [CR]"
    by (simp add: js_def LF_def CR_def endsWith_def)
  have s: "\<not> lines_have_sentinel ?ls"
    and d: "concat (line_deltas ?ls) = js ''Hello'' @ [LF] @ js '' x''"
    by (simp_all add: lines_have_sentinel_def line_deltas_def is_data_def payload_def
          js_def LF_def SP_def)
  show ?thesis
    using crlf_as_lf [OF h, of "getReader []" "sending (asking ''hi'') []"] s d
    by (simp add: fold_sending)
qed

text \<open>
  C7. A send issued while \<^verbatim>\<open>loading\<close> is true, or while the input is empty (or holds
  only white space), returns at once: the page state is the one it was given, so no Message
  is appended, the in-flight pointer is not changed and no Message text is touched; no
  request is made and no stream is opened. In these states \<^verbatim>\<open>canSend\<close> is false, which
  disables the Send button.
\<close>

theorem rejected_send_is_noop:
  assumes "loading st \<or> input st = [] \<or> trim (input st) = []"
  shows "onSend fetch st = \<lparr>outcome = Rejected, page_after = st, stream_reader = None\<rparr>
       \<and> \<not> canSend st"
proof -
  have "trim [] = []" by (simp add: trim_def)
  with assms have "trim (input st) = [] \<or> loading st" by auto
  then show ?thesis
    by (auto simp: onSend_rejected canSend_def)
qed

theorem rejected_send_is_noop_witness:
  "onSend unreachable_backend (sending (asking ''hi'') (js ''par''))
     = \<lparr>outcome = Rejected, page_after = sending (asking ''hi'') (js ''par''),
        stream_reader = None\<rparr>
 \<and> onSend unreachable_backend initial_page
     = \<lparr>outcome = Rejected, page_after = initial_page, stream_reader = None\<rparr>"
  using rejected_send_is_noop [of "sending (asking ''hi'') (js ''par'')" unreachable_backend]
    rejected_send_is_noop [of initial_page unreachable_backend]
  by (simp add: sending_def initial_page_def)


text \<open>
  C8. A delta application changes only the text of the in-flight assistant Message: when the
  in-flight pointer resolves to position \<open>idx\<close>, the Transcript keeps its length, every
  Message at another position is the same Message as before (so order, roles and texts of
  the others are kept), the in-flight Message keeps its role, its new text is the old text
  followed by the delta, and the other state of the page is untouched.
\<close>

theorem appendToAssistant_frame:
  assumes "assistantIndexRef st = Some idx" "0 \<le> idx" "idx < int (length (messages st))"
  shows "length (messages (appendToAssistant delta st)) = length (messages st)
       \<and> (\<forall>j < length (messages st). j \<noteq> nat idx \<longrightarrow>
            messages (appendToAssistant delta st) ! j = messages st ! j)
       \<and> role (messages (appendToAssistant delta st) ! nat idx) = role (messages st ! nat idx)
       \<and> text (messages (appendToAssistant delta st) ! nat idx)
           = text (messages st ! nat idx) @ delta
       \<and> input (appendToAssistant delta st) = input st
       \<and> loading (appendToAssistant delta st) = loading st
       \<and> assistantIndexRef (appendToAssistant delta st) = assistantIndexRef st"
proof -
  have n: "nat idx < length (messages st)"
    using assms by linarith
  show ?thesis
    using n by (simp add: appendToAssistant_resolved [OF assms])
qed

theorem appendToAssistant_frame_witness:
  "(let st = \<lparr>input = [], loading = True,
              messages = [\<lparr>role = User, text = js ''hi''\<rparr>, \<lparr>role = Assistant, text = js ''He''\<rparr>],
              assistantIndexRef = Some 1\<rparr>
    in assistantIndexRef st = Some 1 \<and> (0::int) \<le> 1 \<and> 1 < int (length (messages st))
     \<and> messages (appendToAssistant (js ''llo'') st)
         = [\<lparr>role = User, text = js ''hi''\<rparr>, \<lparr>role = Assistant, text = js ''Hello''\<rparr>])"
  using appendToAssistant_frame [of
      "\<lparr>input = [], loading = True,
        messages = [\<lparr>role = User, text = js ''hi''\<rparr>, \<lparr>role = Assistant, text = js ''He''\<rparr>],
        assistantIndexRef = Some 1\<rparr>" 1 "js ''llo''"]
  by (simp add: appendToAssistant_def js_def)




text \<open>
  C10. When the in-flight pointer is null, negative, or not less than the Transcript length,
  the delta-append returns the page state it was given, whatever the delta; the operation
  has no failing branch.
\<close>

theorem appendToAssistant_noop:
  assumes "assistantIndexRef st = None
         \<or> (\<exists>idx. assistantIndexRef st = Some idx
               \<and> (idx < 0 \<or> idx \<ge> int (length (messages st))))"
  shows "appendToAssistant delta st = st"
  using assms by (rule appendToAssistant_unresolved)

theorem appendToAssistant_noop_witness:
  "appendToAssistant (js ''x'')
     \<lparr>input = [], loading = False, messages = [\<lparr>role = Assistant, text = js ''a''\<rparr>],
      assistantIndexRef = None\<rparr>
   = \<lparr>input = [], loading = False, messages = [\<lparr>role = Assistant, text = js ''a''\<rparr>],
      assistantIndexRef = None\<rparr>
 \<and> appendToAssistant (js ''x'')
     \<lparr>input = [], loading = False, messages = [\<lparr>role = Assistant, text = js ''a''\<rparr>],
      assistantIndexRef = Some (- 1)\<rparr>
   = \<lparr>input = [], loading = False, messages = [\<lparr>role = Assistant, text = js ''a''\<rparr>],
      assistantIndexRef = Some (- 1)\<rparr>
 \<and> appendToAssistant (js ''x'')
     \<lparr>input = [], loading = False, messages = [\<lparr>role = Assistant, text = js ''a''\<rparr>],
      assistantIndexRef = Some 1\<rparr>
   = \<lparr>input = [], loading = False, messages = [\<lparr>role = Assistant, text = js ''a''\<rparr>],
      assistantIndexRef = Some 1\<rparr>"
  using
    appendToAssistant_noop [of
      "\<lparr>input = [], loading = False, messages = [\<lparr>role = Assistant, text = js ''a''\<rparr>],
        assistantIndexRef = None\<rparr>" "js ''x''"]
    appendToAssistant_noop [of
      "\<lparr>input = [], loading = False, messages = [\<lparr>role = Assistant, text = js ''a''\<rparr>],
        assistantIndexRef = Some (- 1)\<rparr>" "js ''x''"]
    appendToAssistant_noop [of
      "\<lparr>input = [], loading = False, messages = [\<lparr>role = Assistant, text = js ''a''\<rparr>],
        assistantIndexRef = Some 1\<rparr>" "js ''x''"]
  by simp


end
